theory Spec2Isabelle
  imports Main "HOL-Library.Sublist" "HOL-Library.Word"
begin

unbundle bit_operations_syntax

section \<open>JavaScript values and strings\<close>

text \<open>
  A JavaScript string is modelled as a \<^typ>\<open>string\<close>, one \<^typ>\<open>char\<close> per code unit, which
  covers the strings whose code units are below 256.  On these \<open>toLowerCase\<close> works
  character by character: \<open>A\<close>..\<open>Z\<close> and the Latin-1 capitals \<open>0xC0\<close>..\<open>0xDE\<close> (without the
  multiplication sign \<open>0xD7\<close>) move up by 32, every other code unit stays.

  A value whose type the source tests at run time (\<open>typeof x === 'string'\<close>, \<open>!x\<close>) is a
  \<open>jsvalue\<close>: a string, a truthy value that is not a string (carried as the text
  \<open>JSON.stringify\<close> gives for it), or a falsy value that is not a string (\<open>undefined\<close>,
  \<open>null\<close>, \<open>false\<close>, \<open>0\<close>, \<open>NaN\<close>).  Diagnostic logging is left out.
\<close>

datatype jsvalue = JString string | JObject string | JFalsy

fun truthy :: "jsvalue \<Rightarrow> bool" where
  "truthy (JString s) = (s \<noteq> [])"
| "truthy (JObject j) = True"
| "truthy JFalsy = False"

definition toLowerCase_char :: "char \<Rightarrow> char" where
  "toLowerCase_char c =
     (let n = (of_char c :: nat)
      in if (65 \<le> n \<and> n \<le> 90) \<or> (192 \<le> n \<and> n \<le> 222 \<and> n \<noteq> 215)
         then char_of (n + 32) else c)"

definition toLowerCase :: "string \<Rightarrow> string" where
  "toLowerCase s = map toLowerCase_char s"

definition str_includes :: "string \<Rightarrow> string \<Rightarrow> bool" where
  \<comment> \<open>\<open>s.includes(p)\<close>: \<open>p\<close> occurs in \<open>s\<close> as a contiguous run\<close>
  "str_includes s p = sublist p s"

definition digitChar :: "nat \<Rightarrow> char" where
  "digitChar d = ''0123456789abcdef'' ! d"

function toStringRadix :: "nat \<Rightarrow> nat \<Rightarrow> string" where
  \<comment> \<open>\<open>n.toString(radix)\<close> for a non-negative integer \<open>n\<close> and a radix from 2 to 16\<close>
  "toStringRadix radix n =
     (if n < radix \<or> radix < 2 then [digitChar n]
      else toStringRadix radix (n div radix) @ [digitChar (n mod radix)])"
  by pat_completeness auto
termination
  by (relation "measure (\<lambda>(radix, n). n)") auto

declare toStringRadix.simps [simp del]

definition numberToString :: "nat \<Rightarrow> int \<Rightarrow> string" where
  \<comment> \<open>\<open>i.toString(radix)\<close> for an integer \<open>i\<close>; radix 10 is also what a template literal prints\<close>
  "numberToString radix i =
     (if i < 0 then CHR ''-'' # toStringRadix radix (nat (- i)) else toStringRadix radix (nat i))"

definition hashStep :: "32 word \<Rightarrow> char \<Rightarrow> 32 word" where
  \<comment> \<open>\<open>hash = ((hash << 5) - hash) + char; hash = hash & hash\<close>\<close>
  "hashStep hash c = (push_bit 5 hash - hash) + of_nat (of_char c)"

section \<open>Pattern tables\<close>

definition TELEMETRY_PATTERNS :: "string list" where
  "TELEMETRY_PATTERNS =
     [''record-session-events'', ''report-error'', ''record-request-events'',
      ''record-user-events'', ''record-preference-sample'', ''chat-feedback'',
      ''completion-feedback'', ''next-edit-feedback'', ''analytics'', ''telemetry'',
      ''usage-statistics'', ''user-stats'', ''event-logging'', ''data-collection'',
      ''data-gathering'', ''data-submission'', ''monitoring-data'', ''observation-data'']"

definition PRECISE_TELEMETRY_ENDPOINTS :: "string list" where
  "PRECISE_TELEMETRY_ENDPOINTS =
     [''/record-session-events'', ''/record-request-events'', ''/record-user-events'',
      ''/record-preference-sample'', ''/chat-feedback'', ''/completion-feedback'',
      ''/next-edit-feedback'', ''/analytics'', ''/telemetry'', ''/usage'', ''/stats'',
      ''segment.io'', ''api.segment.io'']"

definition ESSENTIAL_ENDPOINTS :: "string list" where
  "ESSENTIAL_ENDPOINTS =
     [''report-feature-vector'', ''next-edit-stream'', ''batch-upload'', ''memorize'',
      ''completion'', ''chat-stream'', ''subscription-info'', ''get-models'', ''token'',
      ''codebase-retrieval'', ''agents/'', ''remote-agents'', ''list-stream'',
      ''augment-api'', ''augment-backend'', ''workspace-context'', ''symbol-index'',
      ''blob-upload'', ''codebase-upload'', ''file-sync'', ''is-user-configured'',
      ''list-repos'', ''d16.api.augmentcode.com'', ''client-metrics'', ''users/me'',
      ''api/v1/users/me'', ''clawcloudrun.com'',
      ''nlkxyddsfbdf.ap-southeast-1.clawcloudrun.com'', ''/proxy/gemini/'',
      ''streamGenerateContent'', ''generateContent'', ''/v1beta/models/'',
      ''gemini-2.5-pro'']"

definition CODE_INDEXING_PATTERNS :: "string list" where
  "CODE_INDEXING_PATTERNS =
     [''checkpoint-blobs'', ''batch-upload'', ''codebase-retrieval'', ''file-sync'',
      ''workspace-context'', ''symbol-index'', ''blob-upload'', ''codebase-upload'',
      ''agents/'', ''augment-api'', ''augment-backend'']"

definition enhancedBlockedPatterns :: "string list" where
  "enhancedBlockedPatterns =
     [''bug_report'', ''error_report'', ''crash_report'', ''diagnostic_data'',
      ''segment.io'', ''api.segment.io'', ''/v1/batch'', ''segment'',
      ''writeKey'', ''analytics.track'', ''analytics.identify'',
      ''user_id'', ''session_id'', ''anonymous_id'', ''device_id'',
      ''fingerprint'', ''tenant_id'', ''client_id'']"

definition INTERCEPT_PATTERNS :: "string list" where
  "INTERCEPT_PATTERNS = TELEMETRY_PATTERNS @ enhancedBlockedPatterns"

definition importantPatterns :: "string list" where
  "importantPatterns =
     [''vscode-webview://'', ''vscode-file://'', ''vscode-resource://'',
      ''localhost:'', ''127.0.0.1:'', ''file://'', ''data:'', ''blob:'',
      ''chrome-extension://'', ''moz-extension://'', ''ms-browser-extension://'']"

definition enableEnhancedWhitelist :: bool where
  \<comment> \<open>\<open>INTERCEPTOR_CONFIG.dataProtection.enableEnhancedWhitelist\<close>\<close>
  "enableEnhancedWhitelist = True"

definition enableFeatureVectorSpoofer :: bool where
  \<comment> \<open>\<open>INTERCEPTOR_CONFIG.dataProtection.enableFeatureVectorSpoofer\<close>\<close>
  "enableFeatureVectorSpoofer = True"

definition matchesAny :: "string \<Rightarrow> string list \<Rightarrow> bool" where
  \<comment> \<open>\<open>PATTERNS.some(pattern => text.includes(pattern.toLowerCase()))\<close>\<close>
  "matchesAny text patterns = list_ex (\<lambda>pattern. str_includes text (toLowerCase pattern)) patterns"

section \<open>URLClassificationCache\<close>

text \<open>
  The reason strings of the source are Chinese text; each is one constructor here, in the
  order in which \<open>shouldInterceptUrl\<close> assigns them: the empty string, essential endpoint
  protection, code-indexing whitelist protection, important functional URL protection,
  intercept pattern matched, no intercept pattern matched.
\<close>

datatype reason_text =
  NoReason | EssentialProtection | WhitelistProtection | ImportantUrlProtection
  | MatchedInterceptPattern | NoInterceptPattern

record decision =
  shouldIntercept :: bool
  reason :: reason_text

record cache_entry = decision +
  timestamp :: nat
  url :: string

record cache_stats =
  hits :: nat
  misses :: nat
  totalRequests :: nat

text \<open>
  The \<open>Map\<close> of the source keeps its keys in insertion order: an association list with
  distinct keys.  \<open>Map.set\<close> on a present key replaces the value where it stands, on a new
  key it appends; \<open>keys().next().value\<close> is the first key of the list.
\<close>

record url_cache =
  cache :: "(string \<times> cache_entry) list"
  stats :: cache_stats
  maxCacheSize :: nat

fun Map_set :: "('k \<times> 'v) list \<Rightarrow> 'k \<Rightarrow> 'v \<Rightarrow> ('k \<times> 'v) list" where
  "Map_set [] k v = [(k, v)]"
| "Map_set ((k', v') # m) k v = (if k' = k then (k, v) # m else (k', v') # Map_set m k v)"

definition Map_delete :: "('k \<times> 'v) list \<Rightarrow> 'k \<Rightarrow> ('k \<times> 'v) list" where
  "Map_delete m k = filter (\<lambda>kv. fst kv \<noteq> k) m"

definition URLClassificationCache_init :: url_cache where
  "URLClassificationCache_init =
     \<lparr>cache = [], stats = \<lparr>hits = 0, misses = 0, totalRequests = 0\<rparr>, maxCacheSize = 1000\<rparr>"

definition generateCacheKey :: "string \<Rightarrow> jsvalue \<Rightarrow> string" where
  "generateCacheKey u data =
     (case data of
        JString s \<Rightarrow>
          if s \<noteq> [] then u @ ''_'' @ numberToString 10 (sint (foldl hashStep 0 (take 100 s)))
          else u
      | _ \<Rightarrow> u)"

definition URLClassificationCache_get ::
    "url_cache \<Rightarrow> string \<Rightarrow> jsvalue \<Rightarrow> cache_entry option \<times> url_cache" where
  "URLClassificationCache_get c u data =
     (let c1 = c\<lparr>stats := (stats c)\<lparr>totalRequests := totalRequests (stats c) + 1\<rparr>\<rparr>;
          cacheKey = generateCacheKey u data
      in case map_of (cache c1) cacheKey of
           Some cached \<Rightarrow> (Some cached, c1\<lparr>stats := (stats c1)\<lparr>hits := hits (stats c1) + 1\<rparr>\<rparr>)
         | None \<Rightarrow> (None, c1\<lparr>stats := (stats c1)\<lparr>misses := misses (stats c1) + 1\<rparr>\<rparr>))"

definition URLClassificationCache_set ::
    "url_cache \<Rightarrow> string \<Rightarrow> jsvalue \<Rightarrow> 'a decision_scheme \<Rightarrow> nat \<Rightarrow> url_cache" where
  \<comment> \<open>\<open>result\<close> is any object with the fields of a decision (the source spreads it and
      then writes \<open>timestamp\<close> and \<open>url\<close>); the last argument is what \<open>Date.now()\<close> returns\<close>
  "URLClassificationCache_set c u data result now =
     (let cacheKey = generateCacheKey u data;
          m = (if maxCacheSize c \<le> length (cache c)
               then (case cache c of [] \<Rightarrow> [] | (firstKey, e) # rest \<Rightarrow> Map_delete (cache c) firstKey)
               else cache c)
      in c\<lparr>cache := Map_set m cacheKey
           \<lparr>shouldIntercept = shouldIntercept result, reason = reason result,
            timestamp = now, url = u\<rparr>\<rparr>)"

definition URLClassificationCache_clear :: "url_cache \<Rightarrow> url_cache" where
  "URLClassificationCache_clear c =
     c\<lparr>cache := [], stats := \<lparr>hits = 0, misses = 0, totalRequests = 0\<rparr>\<rparr>"

section \<open>shouldInterceptUrl\<close>

definition interceptDecision :: "string \<Rightarrow> decision" where
  \<comment> \<open>the part of \<open>shouldInterceptUrl\<close> after the essential-endpoint tier\<close>
  "interceptDecision urlLower =
     (let d0 = \<lparr>shouldIntercept = False, reason = NoReason\<rparr>;
          d1 = (if enableEnhancedWhitelist \<and> matchesAny urlLower CODE_INDEXING_PATTERNS
                then \<lparr>shouldIntercept = False, reason = WhitelistProtection\<rparr> else d0)
      in if \<not> shouldIntercept d1 then
           (if matchesAny urlLower INTERCEPT_PATTERNS then
              (if list_ex (\<lambda>pattern. str_includes urlLower pattern) importantPatterns
               then \<lparr>shouldIntercept = False, reason = ImportantUrlProtection\<rparr>
               else \<lparr>shouldIntercept = True, reason = MatchedInterceptPattern\<rparr>)
            else \<lparr>shouldIntercept = False, reason = NoInterceptPattern\<rparr>)
         else d1)"

definition shouldInterceptUrl ::
    "url_cache \<Rightarrow> jsvalue \<Rightarrow> jsvalue \<Rightarrow> nat \<Rightarrow> bool \<times> url_cache" where
  "shouldInterceptUrl c address data now =
     (case address of
        JString u \<Rightarrow>
          (case URLClassificationCache_get c u data of
             (Some cached, c1) \<Rightarrow> (shouldIntercept cached, c1)
           | (None, c1) \<Rightarrow>
               (let urlLower = toLowerCase u in
                if matchesAny urlLower ESSENTIAL_ENDPOINTS
                then (let result = \<lparr>shouldIntercept = False, reason = EssentialProtection\<rparr>
                      in (False, URLClassificationCache_set c1 u data result now))
                else (let result = interceptDecision urlLower
                      in (shouldIntercept result,
                          URLClassificationCache_set c1 u data result now))))
      | _ \<Rightarrow> (False, c))"

section \<open>SmartDataClassifier\<close>

definition dataStr :: "jsvalue \<Rightarrow> string" where
  \<comment> \<open>\<open>typeof data === 'string' ? data : JSON.stringify(data)\<close>, reached for truthy data only\<close>
  "dataStr data = (case data of JString s \<Rightarrow> s | JObject j \<Rightarrow> j | JFalsy \<Rightarrow> [])"

definition isEssentialEndpoint :: "string \<Rightarrow> bool" where
  "isEssentialEndpoint context =
     (if context = [] then False else matchesAny (toLowerCase context) ESSENTIAL_ENDPOINTS)"

definition isPreciseTelemetryEndpoint :: "string \<Rightarrow> bool" where
  "isPreciseTelemetryEndpoint context =
     (if context = [] then False
      else matchesAny (toLowerCase context) PRECISE_TELEMETRY_ENDPOINTS)"

definition matchesDataOrContext :: "jsvalue \<Rightarrow> string \<Rightarrow> string list \<Rightarrow> bool" where
  \<comment> \<open>the \<open>find\<close> shared by \<open>isCodeIndexingRelated\<close> and \<open>isTelemetryData\<close>\<close>
  "matchesDataOrContext data context patterns =
     (let contextStr = toLowerCase context
      in list_ex (\<lambda>pattern. str_includes (toLowerCase (dataStr data)) (toLowerCase pattern)
                            \<or> str_includes contextStr (toLowerCase pattern)) patterns)"

definition isCodeIndexingRelated :: "jsvalue \<Rightarrow> string \<Rightarrow> bool" where
  "isCodeIndexingRelated data context =
     (if \<not> truthy data then False else matchesDataOrContext data context CODE_INDEXING_PATTERNS)"

definition isTelemetryData :: "jsvalue \<Rightarrow> string \<Rightarrow> bool" where
  "isTelemetryData data context =
     (if \<not> truthy data then False else matchesDataOrContext data context TELEMETRY_PATTERNS)"

definition shouldInterceptUpload :: "jsvalue \<Rightarrow> string \<Rightarrow> bool" where
  "shouldInterceptUpload data context =
     (if isEssentialEndpoint context then False
      else if isPreciseTelemetryEndpoint context then True
      else if isTelemetryData data context then True
      else if isCodeIndexingRelated data context then False
      else False)"

section \<open>FeatureVectorSpoofer\<close>

record session_ids =
  main :: string
  user :: string
  anonymous :: string

definition getMainSessionId :: "session_ids \<Rightarrow> string" where
  "getMainSessionId sessionIds = main sessionIds"

definition charAt :: "string \<Rightarrow> nat option \<Rightarrow> char option" where
  \<comment> \<open>\<open>s[i]\<close>: \<open>undefined\<close> (\<open>None\<close>) when the index is \<open>NaN\<close> or out of range\<close>
  "charAt s i = (case i of None \<Rightarrow> None | Some k \<Rightarrow> if k < length s then Some (s ! k) else None)"

definition remainder :: "nat \<Rightarrow> nat \<Rightarrow> nat option" where
  \<comment> \<open>\<open>n % m\<close> on non-negative integers: \<open>NaN\<close> (\<open>None\<close>) when \<open>m\<close> is 0\<close>
  "remainder n m = (if m = 0 then None else Some (n mod m))"

definition parseInt16 :: "char option \<Rightarrow> nat option" where
  \<comment> \<open>\<open>parseInt(x, 16)\<close> for a one-character string or \<open>undefined\<close>: \<open>NaN\<close> is \<open>None\<close>\<close>
  "parseInt16 x =
     (case x of
        None \<Rightarrow> None
      | Some c \<Rightarrow>
          (let n = (of_char c :: nat)
           in if 48 \<le> n \<and> n \<le> 57 then Some (n - 48)
              else if 97 \<le> n \<and> n \<le> 102 then Some (n - 87)
              else if 65 \<le> n \<and> n \<le> 70 then Some (n - 55)
              else None))"

definition toInt32 :: "nat option \<Rightarrow> nat" where
  \<comment> \<open>the operand conversion of \<open>^\<close>: \<open>NaN\<close> becomes 0\<close>
  "toInt32 x = (case x of None \<Rightarrow> 0 | Some n \<Rightarrow> n)"

definition padStart2 :: "string \<Rightarrow> string" where
  \<comment> \<open>\<open>s.padStart(2, '0')\<close>\<close>
  "padStart2 s = replicate (2 - length s) (CHR ''0'') @ s"

function extendHash :: "string \<Rightarrow> string \<Rightarrow> string \<Rightarrow> string" where
  \<comment> \<open>the \<open>while (extendedHash.length < 64)\<close> loop\<close>
  "extendHash sessionSeed indexHex extendedHash =
     (if length extendedHash < 64 then
        (let seedChar = charAt sessionSeed (remainder (length extendedHash) (length sessionSeed));
             indexChar = charAt indexHex (remainder (length extendedHash) 2);
             combinedChar =
               toStringRadix 16 (toInt32 (parseInt16 seedChar) XOR toInt32 (parseInt16 indexChar))
         in extendHash sessionSeed indexHex (extendedHash @ combinedChar))
      else extendedHash)"
  by pat_completeness auto

lemma toStringRadix_not_Nil: "toStringRadix radix n \<noteq> []"
  by (subst toStringRadix.simps) simp

termination extendHash
proof (relation "measure (\<lambda>(sessionSeed, indexHex, extendedHash). 64 - length extendedHash)")
  show "wf (measure (\<lambda>(sessionSeed, indexHex, extendedHash). 64 - length extendedHash))"
    by simp
next
  fix sessionSeed indexHex extendedHash :: string
  fix seedChar indexChar :: "char option" and combinedChar :: string
  assume small: "length extendedHash < 64"
    and "combinedChar =
           toStringRadix 16 (toInt32 (parseInt16 seedChar) XOR toInt32 (parseInt16 indexChar))"
  then have "combinedChar \<noteq> []"
    using toStringRadix_not_Nil by simp
  then obtain x xs where "combinedChar = x # xs"
    by (cases combinedChar) auto
  with small
  show "((sessionSeed, indexHex, extendedHash @ combinedChar),
         (sessionSeed, indexHex, extendedHash))
          \<in> measure (\<lambda>(sessionSeed, indexHex, extendedHash). 64 - length extendedHash)"
    by simp
qed

declare extendHash.simps [simp del]

definition calculateHash :: "session_ids option \<Rightarrow> string \<Rightarrow> int \<Rightarrow> string" where
  \<comment> \<open>\<open>SessionManager\<close> is \<open>None\<close> where \<open>typeof SessionManager\<close> is \<open>'undefined'\<close>;
      \<open>dataJson\<close> is the text that \<open>JSON.stringify(data)\<close> puts into the template literal\<close>
  "calculateHash SessionManager dataJson index =
     (let saltedData = numberToString 10 index @ '':'' @ dataJson;
          hash = foldl hashStep 0 saltedData;
          baseHash = toStringRadix 16 (nat \<bar>sint hash\<bar>);
          sessionId = (case SessionManager of
                         Some sessionIds \<Rightarrow> getMainSessionId sessionIds
                       | None \<Rightarrow> ''default-session-id'');
          sessionSeed = take 8 (filter (\<lambda>c. c \<noteq> CHR ''-'') sessionId)
      in take 64 (extendHash sessionSeed (padStart2 (numberToString 16 index)) baseHash))"

definition calculateVersionHash :: "session_ids option \<Rightarrow> string \<Rightarrow> string" where
  "calculateVersionHash SessionManager dataJson =
     (let hash = calculateHash SessionManager dataJson 12 in ''v1#'' @ hash)"

definition isFeatureVectorEndpoint :: "string \<Rightarrow> bool" where
  "isFeatureVectorEndpoint u =
     (if \<not> enableFeatureVectorSpoofer then False
      else if u = [] then False
      else str_includes (toLowerCase u) ''report-feature-vector'')"

section \<open>NetworkInterceptor: the fetch replacement\<close>

text \<open>
  The replacement of \<open>global.fetch\<close> either hands the request to the original \<open>fetch\<close>
  (a real network call, with the body replaced by spoofed data on the feature-vector
  path) or resolves to a fabricated response object.  Of that object the model keeps
  \<open>ok\<close>, \<open>status\<close>, \<open>statusText\<close>, the \<open>content-type\<close> header and the text that \<open>text()\<close>
  resolves to (\<open>json()\<close> resolves to the object this text denotes).  The header rewriting
  on the forwarding path does not change the outcome and is left out.
\<close>

record mock_response =
  ok :: bool
  status :: nat
  statusText :: string
  contentType :: string
  bodyText :: string

datatype fetch_outcome = OriginalFetchSpoofed | MockResponse mock_response | OriginalFetch

definition mockResponse :: mock_response where
  "mockResponse =
     \<lparr>ok = True, status = 200, statusText = ''OK'', contentType = ''application/json'',
      bodyText = ''{}''\<rparr>"

definition segmentResponse :: mock_response where
  "segmentResponse =
     \<lparr>ok = True, status = 200, statusText = ''OK'', contentType = ''application/json'',
      bodyText = ''{\"success\": true, \"batch\": {\"sent\": true}}''\<rparr>"

definition orEmpty :: "jsvalue \<Rightarrow> jsvalue" where
  \<comment> \<open>\<open>options.body || ''\<close>\<close>
  "orEmpty body = (if truthy body then body else JString [])"

definition fetch :: "url_cache \<Rightarrow> string \<Rightarrow> jsvalue \<Rightarrow> nat \<Rightarrow> fetch_outcome \<times> url_cache" where
  \<comment> \<open>\<open>urlString\<close> is \<open>url.toString()\<close>, \<open>body\<close> is \<open>options.body\<close>\<close>
  "fetch c urlString body now =
     (if isFeatureVectorEndpoint urlString then (OriginalFetchSpoofed, c)
      else if shouldInterceptUpload (orEmpty body) urlString then (MockResponse mockResponse, c)
      else if str_includes urlString ''segment.io'' \<or> str_includes urlString ''api.segment.io''
              \<or> str_includes urlString ''/v1/batch'' \<or> str_includes urlString ''/v1/track''
           then (MockResponse segmentResponse, c)
      else (case shouldInterceptUrl c (JString urlString) (orEmpty body) now of
              (True, c1) \<Rightarrow> (MockResponse mockResponse, c1)
            | (False, c1) \<Rightarrow> (OriginalFetch, c1)))"

section \<open>Cache states the program can reach\<close>

text \<open>
  Only \<open>shouldInterceptUrl\<close> reads or writes the cache, and the exported console command
  clears it; these are the states the cache goes through, from the empty one.
\<close>

inductive reachable :: "url_cache \<Rightarrow> bool" where
  initial: "reachable URLClassificationCache_init"
| classified: "reachable c \<Longrightarrow> reachable (snd (shouldInterceptUrl c address data now))"
| cleared: "reachable c \<Longrightarrow> reachable (URLClassificationCache_clear c)"

text \<open>
  The verdict of an address on a cache miss, the invariant that ties every cache entry to
  the verdict of the address stored with it, and the test that no pattern of a table can
  end inside the \<open>_<number>\<close> tail that \<open>generateCacheKey\<close> appends.
\<close>

definition urlVerdict :: "string \<Rightarrow> bool" where
  \<comment> \<open>what \<open>shouldInterceptUrl\<close> computes for an address on a cache miss\<close>
  "urlVerdict u =
     (let urlLower = toLowerCase u
      in if matchesAny urlLower ESSENTIAL_ENDPOINTS then False
         else shouldIntercept (interceptDecision urlLower))"

definition consistent :: "url_cache \<Rightarrow> bool" where
  \<comment> \<open>every entry was stored under a key of its own address, with the verdict of that address\<close>
  "consistent c =
     list_all (\<lambda>(k, e). shouldIntercept e = urlVerdict (url e)
                         \<and> (\<exists>data. k = generateCacheKey (url e) data)) (cache c)"

definition clear_of_key_tail :: "string list \<Rightarrow> bool" where
  "clear_of_key_tail patterns =
     list_all (\<lambda>p. p \<noteq> [] \<and> last p \<notin> set ''_-0123456789'') patterns"

section \<open>Sequences of cache insertions\<close>

definition setAll :: "url_cache \<Rightarrow> (string \<times> jsvalue \<times> decision \<times> nat) list \<Rightarrow> url_cache" where
  \<comment> \<open>a sequence of \<open>set(url, data, result)\<close> calls, each with the clock value it reads\<close>
  "setAll c calls =
     foldl (\<lambda>c (u, data, result, now). URLClassificationCache_set c u data result now) c calls"

definition keyOf :: "string \<times> jsvalue \<times> decision \<times> nat \<Rightarrow> string" where
  "keyOf call = (case call of (u, data, result, now) \<Rightarrow> generateCacheKey u data)"

section \<open>Properties of the decision cache\<close>

subsection \<open>The insertion-ordered map\<close>

lemma map_of_Map_set_same: "map_of (Map_set m k v) k = Some v"
  by (induction m) auto

lemma map_of_Map_set_other: "k' \<noteq> k \<Longrightarrow> map_of (Map_set m k v) k' = map_of m k'"
  by (induction m) auto

lemma set_Map_set: "set (Map_set m k v) \<subseteq> insert (k, v) (set m)"
  by (induction m) (auto split: if_splits)

lemma set_Map_delete: "set (Map_delete m k) \<subseteq> set m"
  by (auto simp: Map_delete_def)

lemma length_Map_set: "length (Map_set m k v) \<le> Suc (length m)"
  by (induction m) auto

lemma Map_set_fresh: "k \<notin> fst ` set m \<Longrightarrow> Map_set m k v = m @ [(k, v)]"
  by (induction m) auto

lemma Map_delete_head:
  "k \<notin> fst ` set m \<Longrightarrow> Map_delete ((k, v) # m) k = m"
  by (induction m) (auto simp: Map_delete_def)

lemma length_Map_delete_head: "length (Map_delete ((k, v) # m) k) \<le> length m"
  by (simp add: Map_delete_def le_imp_less_Suc[THEN less_imp_le] order.trans[OF length_filter_le])

lemma evicted_entries:
  "set (if n \<le> length m then (case m of [] \<Rightarrow> [] | (firstKey, e) # rest \<Rightarrow> Map_delete m firstKey) else m)
     \<subseteq> set m"
  by (auto split: list.splits dest: set_Map_delete [THEN subsetD])

lemma evicted_length:
  assumes "0 < n" and "length m \<le> n"
  shows "length (if n \<le> length m then (case m of [] \<Rightarrow> [] | (firstKey, e) # rest \<Rightarrow> Map_delete m firstKey) else m) < n"
proof (cases m)
  case Nil
  then show ?thesis using assms by simp
next
  case (Cons kv rest)
  obtain k v where kv: "kv = (k, v)" by (cases kv)
  have "length (Map_delete ((k, v) # rest) k) \<le> length rest"
    by (rule length_Map_delete_head)
  then show ?thesis
    using Cons kv assms by auto
qed

lemma set_bound:
  assumes "0 < maxCacheSize c" and "length (cache c) \<le> maxCacheSize c"
  shows "length (cache (URLClassificationCache_set c u data result now)) \<le> maxCacheSize c"
    and "maxCacheSize (URLClassificationCache_set c u data result now) = maxCacheSize c"
proof -
  let ?m = "if maxCacheSize c \<le> length (cache c)
            then (case cache c of [] \<Rightarrow> [] | (firstKey, e) # rest \<Rightarrow> Map_delete (cache c) firstKey)
            else cache c"
  have "length ?m < maxCacheSize c"
    using assms by (rule evicted_length)
  moreover have "length (Map_set ?m k v) \<le> Suc (length ?m)" for k v
    by (rule length_Map_set)
  ultimately have "length (Map_set ?m k v) \<le> maxCacheSize c" for k v
    by (meson Suc_leI order.trans)
  then show "length (cache (URLClassificationCache_set c u data result now)) \<le> maxCacheSize c"
    by (simp add: URLClassificationCache_set_def Let_def)
  show "maxCacheSize (URLClassificationCache_set c u data result now) = maxCacheSize c"
    by (simp add: URLClassificationCache_set_def Let_def)
qed

lemma setAll_Nil: "setAll c [] = c"
  by (simp add: setAll_def)

lemma setAll_Cons:
  "setAll c ((u, data, result, now) # calls) =
     setAll (URLClassificationCache_set c u data result now) calls"
  by (simp add: setAll_def)

lemma setAll_snoc:
  "setAll c (calls @ [(u, data, result, now)]) =
     URLClassificationCache_set (setAll c calls) u data result now"
  by (simp add: setAll_def)

lemma setAll_bound:
  "0 < maxCacheSize c \<Longrightarrow> length (cache c) \<le> maxCacheSize c \<Longrightarrow>
   length (cache (setAll c calls)) \<le> maxCacheSize c \<and> maxCacheSize (setAll c calls) = maxCacheSize c"
proof (induction calls arbitrary: c)
  case Nil
  then show ?case by (simp add: setAll_Nil)
next
  case (Cons call calls)
  obtain u data result now where call: "call = (u, data, result, now)"
    by (cases call) auto
  let ?c = "URLClassificationCache_set c u data result now"
  have "length (cache ?c) \<le> maxCacheSize c" and m: "maxCacheSize ?c = maxCacheSize c"
    using Cons.prems by (rule set_bound)+
  then have "length (cache (setAll ?c calls)) \<le> maxCacheSize ?c
             \<and> maxCacheSize (setAll ?c calls) = maxCacheSize ?c"
    using Cons.prems by (intro Cons.IH) simp_all
  then show ?case
    by (simp add: call setAll_Cons m)
qed

lemma set_without_eviction:
  assumes "length (cache c) < maxCacheSize c" and "generateCacheKey u data \<notin> fst ` set (cache c)"
  shows "map fst (cache (URLClassificationCache_set c u data result now))
           = map fst (cache c) @ [generateCacheKey u data]"
  using assms by (simp add: URLClassificationCache_set_def Let_def Map_set_fresh)

lemma setAll_fill:
  "length (cache c) + length calls \<le> maxCacheSize c \<Longrightarrow>
   distinct (map fst (cache c) @ map keyOf calls) \<Longrightarrow>
   map fst (cache (setAll c calls)) = map fst (cache c) @ map keyOf calls
   \<and> maxCacheSize (setAll c calls) = maxCacheSize c"
proof (induction calls arbitrary: c)
  case Nil
  then show ?case by (simp add: setAll_Nil)
next
  case (Cons call calls)
  obtain u data result now where call: "call = (u, data, result, now)"
    by (cases call) auto
  let ?c = "URLClassificationCache_set c u data result now"
  have key: "keyOf call = generateCacheKey u data"
    by (simp add: call keyOf_def)
  have fresh: "generateCacheKey u data \<notin> fst ` set (cache c)"
    using Cons.prems(2) key by auto
  have keys: "map fst (cache ?c) = map fst (cache c) @ [generateCacheKey u data]"
    using Cons.prems(1) fresh by (intro set_without_eviction) simp_all
  have m: "maxCacheSize ?c = maxCacheSize c"
    by (simp add: URLClassificationCache_set_def Let_def)
  have len: "length (cache ?c) = Suc (length (cache c))"
    using arg_cong [OF keys, of length] by simp
  have "map fst (cache (setAll ?c calls)) = map fst (cache ?c) @ map keyOf calls
        \<and> maxCacheSize (setAll ?c calls) = maxCacheSize ?c"
  proof (rule Cons.IH)
    show "length (cache ?c) + length calls \<le> maxCacheSize ?c"
      using Cons.prems(1) len m by simp
    show "distinct (map fst (cache ?c) @ map keyOf calls)"
      using Cons.prems(2) keys key by simp
  qed
  then show ?case
    by (simp add: call setAll_Cons keys m keyOf_def)
qed

lemma set_with_eviction:
  assumes full: "maxCacheSize c \<le> length (cache c)"
    and keys: "map fst (cache c) = k0 # ks"
    and dist: "distinct (k0 # ks)"
    and fresh: "generateCacheKey u data \<notin> set (k0 # ks)"
  shows "map fst (cache (URLClassificationCache_set c u data result now))
           = ks @ [generateCacheKey u data]"
proof -
  obtain e0 rest where c: "cache c = (k0, e0) # rest" and rest: "map fst rest = ks"
    using keys by (cases "cache c") auto
  have "k0 \<notin> set (map fst rest)"
    using dist rest by simp
  then have "k0 \<notin> fst ` set rest"
    by simp
  then have del: "Map_delete ((k0, e0) # rest) k0 = rest"
    by (rule Map_delete_head)
  have "generateCacheKey u data \<notin> set (map fst rest)"
    using fresh rest by simp
  then have "generateCacheKey u data \<notin> fst ` set rest"
    by simp
  then have "Map_set rest (generateCacheKey u data) v = rest @ [(generateCacheKey u data, v)]" for v
    by (rule Map_set_fresh)
  then show ?thesis
    using full by (simp add: URLClassificationCache_set_def Let_def c del rest)
qed

lemma overflow_by_one:
  assumes N: "0 < N" and len: "length calls = Suc N" and dist: "distinct (map keyOf calls)"
  shows "map fst (cache (setAll (URLClassificationCache_init\<lparr>maxCacheSize := N\<rparr>) calls))
           = tl (map keyOf calls)"
proof -
  let ?c0 = "URLClassificationCache_init\<lparr>maxCacheSize := N\<rparr>"
  obtain front call where calls: "calls = front @ [call]"
    using len by (cases calls rule: rev_cases) auto
  obtain u data result now where call: "call = (u, data, result, now)"
    by (cases call) auto
  have lenf: "length front = N"
    using len calls by simp
  have c0: "cache ?c0 = []" "maxCacheSize ?c0 = N"
    by (simp_all add: URLClassificationCache_init_def)
  have fill: "map fst (cache (setAll ?c0 front)) = map fst (cache ?c0) @ map keyOf front
        \<and> maxCacheSize (setAll ?c0 front) = maxCacheSize ?c0"
  proof (rule setAll_fill)
    show "length (cache ?c0) + length front \<le> maxCacheSize ?c0"
      using lenf c0 by simp
    show "distinct (map fst (cache ?c0) @ map keyOf front)"
      using dist calls c0 by simp
  qed
  then have keys: "map fst (cache (setAll ?c0 front)) = map keyOf front"
    and cap: "maxCacheSize (setAll ?c0 front) = N"
    using c0 by simp_all
  obtain k0 ks where front: "map keyOf front = k0 # ks"
    using lenf N by (cases front) auto
  have key: "keyOf call = generateCacheKey u data"
    by (simp add: call keyOf_def)
  have "map fst (cache (URLClassificationCache_set (setAll ?c0 front) u data result now))
          = ks @ [generateCacheKey u data]"
  proof (rule set_with_eviction)
    show "maxCacheSize (setAll ?c0 front) \<le> length (cache (setAll ?c0 front))"
      using cap lenf arg_cong [OF keys, of length] by simp
    show "map fst (cache (setAll ?c0 front)) = k0 # ks"
      using keys front by simp
    show "distinct (k0 # ks)"
      using dist calls front by simp
    show "generateCacheKey u data \<notin> set (k0 # ks)"
      using dist calls front key by auto
  qed
  then show ?thesis
    using front by (simp add: calls call setAll_snoc keyOf_def)
qed

text \<open>
  Claim C5.  After any sequence of \<open>set\<close> calls on the initially empty cache the table
  holds at most 1000 entries.  With a capacity \<open>N\<close> of at least one, \<open>N + 1\<close> calls with
  pairwise distinct cache keys leave exactly \<open>N\<close> entries: the keys of all calls but the
  first, in the order of the calls; the key of the first call is absent.
\<close>

theorem cache_capacity_bound_and_fifo_eviction:
  "length (cache (setAll URLClassificationCache_init calls)) \<le> 1000
   \<and> (0 < N \<and> length calls' = Suc N \<and> distinct (map keyOf calls') \<longrightarrow>
        length (cache (setAll (URLClassificationCache_init\<lparr>maxCacheSize := N\<rparr>) calls')) = N
        \<and> map fst (cache (setAll (URLClassificationCache_init\<lparr>maxCacheSize := N\<rparr>) calls'))
              = tl (map keyOf calls')
        \<and> map_of (cache (setAll (URLClassificationCache_init\<lparr>maxCacheSize := N\<rparr>) calls'))
              (keyOf (hd calls')) = None)"
proof (intro conjI impI)
  have "length (cache (setAll URLClassificationCache_init calls))
          \<le> maxCacheSize URLClassificationCache_init
        \<and> maxCacheSize (setAll URLClassificationCache_init calls)
          = maxCacheSize URLClassificationCache_init"
    by (rule setAll_bound) (simp_all add: URLClassificationCache_init_def)
  then show "length (cache (setAll URLClassificationCache_init calls)) \<le> 1000"
    by (simp add: URLClassificationCache_init_def)
next
  let ?c = "setAll (URLClassificationCache_init\<lparr>maxCacheSize := N\<rparr>) calls'"
  assume hyp: "0 < N \<and> length calls' = Suc N \<and> distinct (map keyOf calls')"
  then have keys: "map fst (cache ?c) = tl (map keyOf calls')"
    by (intro overflow_by_one) simp_all
  show "map fst (cache ?c) = tl (map keyOf calls')"
    by (rule keys)
  show "length (cache ?c) = N"
    using arg_cong [OF keys, of length] hyp by simp
  obtain call rest where calls': "calls' = call # rest"
    using hyp by (cases calls') auto
  have "keyOf call \<notin> set (tl (map keyOf calls'))"
    using hyp by (simp add: calls')
  then have "keyOf call \<notin> set (map fst (cache ?c))"
    unfolding keys .
  then show "map_of (cache ?c) (keyOf (hd calls')) = None"
    by (simp add: calls' map_of_eq_None_iff)
qed

theorem cache_capacity_bound_and_fifo_eviction_witness:
  "(0::nat) < 2
   \<and> length [(''a'', JFalsy, \<lparr>shouldIntercept = True, reason = MatchedInterceptPattern\<rparr>, 10::nat),
              (''b'', JFalsy, \<lparr>shouldIntercept = False, reason = NoInterceptPattern\<rparr>, 11),
              (''c'', JFalsy, \<lparr>shouldIntercept = False, reason = EssentialProtection\<rparr>, 12)] = Suc 2
   \<and> distinct (map keyOf
         [(''a'', JFalsy, \<lparr>shouldIntercept = True, reason = MatchedInterceptPattern\<rparr>, 10::nat),
          (''b'', JFalsy, \<lparr>shouldIntercept = False, reason = NoInterceptPattern\<rparr>, 11),
          (''c'', JFalsy, \<lparr>shouldIntercept = False, reason = EssentialProtection\<rparr>, 12)])
   \<and> map fst (cache (setAll (URLClassificationCache_init\<lparr>maxCacheSize := 2\<rparr>)
         [(''a'', JFalsy, \<lparr>shouldIntercept = True, reason = MatchedInterceptPattern\<rparr>, 10::nat),
          (''b'', JFalsy, \<lparr>shouldIntercept = False, reason = NoInterceptPattern\<rparr>, 11),
          (''c'', JFalsy, \<lparr>shouldIntercept = False, reason = EssentialProtection\<rparr>, 12)]))
       = [''b'', ''c'']
   \<and> map_of (cache (setAll (URLClassificationCache_init\<lparr>maxCacheSize := 2\<rparr>)
         [(''a'', JFalsy, \<lparr>shouldIntercept = True, reason = MatchedInterceptPattern\<rparr>, 10::nat),
          (''b'', JFalsy, \<lparr>shouldIntercept = False, reason = NoInterceptPattern\<rparr>, 11),
          (''c'', JFalsy, \<lparr>shouldIntercept = False, reason = EssentialProtection\<rparr>, 12)])) ''a''
       = None"
proof -
  let ?calls = "[(''a'', JFalsy, \<lparr>shouldIntercept = True, reason = MatchedInterceptPattern\<rparr>, 10::nat),
          (''b'', JFalsy, \<lparr>shouldIntercept = False, reason = NoInterceptPattern\<rparr>, 11),
          (''c'', JFalsy, \<lparr>shouldIntercept = False, reason = EssentialProtection\<rparr>, 12)]"
  have hyp: "(0::nat) < 2 \<and> length ?calls = Suc 2 \<and> distinct (map keyOf ?calls)"
    by (simp add: keyOf_def generateCacheKey_def)
  have keys: "tl (map keyOf ?calls) = [''b'', ''c'']" "keyOf (hd ?calls) = ''a''"
    by (simp_all add: keyOf_def generateCacheKey_def)
  show ?thesis
    using cache_capacity_bound_and_fifo_eviction [of "[]" 2 ?calls] hyp keys by simp
qed

text \<open>
  Claim C6, as stated: a \<open>get\<close> that follows \<open>set(a, p, d)\<close> returns \<open>d\<close>.  It returns the
  entry \<open>{...d, timestamp, url}\<close> instead.  For a decision of two fields the result has a
  time stamp and an address, which \<open>d\<close> has not; for an object \<open>d\<close> that has fields of these
  names (an entry that an earlier \<open>get\<close> returned, say) they are overwritten, and the result
  differs from \<open>d\<close>.
\<close>

theorem set_then_get_returns_entry_counterexample:
  "map_option timestamp
     (fst (URLClassificationCache_get
        (URLClassificationCache_set URLClassificationCache_init ''https://example.com/analytics''
           (JString []) \<lparr>shouldIntercept = True, reason = MatchedInterceptPattern\<rparr>
           1700000000000)
        ''https://example.com/analytics'' (JString []))) = Some 1700000000000
   \<and> map_option url
     (fst (URLClassificationCache_get
        (URLClassificationCache_set URLClassificationCache_init ''https://example.com/analytics''
           (JString []) \<lparr>shouldIntercept = True, reason = MatchedInterceptPattern\<rparr>
           1700000000000)
        ''https://example.com/analytics'' (JString []))) = Some ''https://example.com/analytics''
   \<and> fst (URLClassificationCache_get
        (URLClassificationCache_set URLClassificationCache_init ''https://example.com/analytics''
           (JString [])
           \<lparr>shouldIntercept = True, reason = MatchedInterceptPattern,
            timestamp = 5, url = ''https://other.example.com/''\<rparr>
           1700000000000)
        ''https://example.com/analytics'' (JString []))
     \<noteq> Some \<lparr>shouldIntercept = True, reason = MatchedInterceptPattern,
              timestamp = 5, url = ''https://other.example.com/''\<rparr>"
  by (simp add: URLClassificationCache_get_def URLClassificationCache_set_def
        URLClassificationCache_init_def generateCacheKey_def Let_def)

text \<open>
  Claim C6, amended.  A \<open>get\<close> that follows \<open>set(a, p, d)\<close> with the same address and payload
  hits and returns the entry \<open>{...d, timestamp, url}\<close>: the \<open>shouldIntercept\<close> and the \<open>reason\<close>
  of \<open>d\<close>, the time stamp that \<open>set\<close> read from the clock and the address \<open>a\<close>.  Cut back
  to the fields of a decision it is \<open>d\<close>, unchanged.
\<close>

theorem set_then_get_returns_decision:
  "fst (URLClassificationCache_get (URLClassificationCache_set c a p d now) a p)
     = Some \<lparr>shouldIntercept = shouldIntercept d, reason = reason d, timestamp = now, url = a\<rparr>
   \<and> map_option decision.truncate
         (fst (URLClassificationCache_get (URLClassificationCache_set c a p d now) a p)) = Some d"
  by (simp add: URLClassificationCache_get_def URLClassificationCache_set_def Let_def
        map_of_Map_set_same decision.truncate_def)

text \<open>
  Claim C7, as stated: \<open>get\<close> leaves the whole state of the cache unchanged.  It does not:
  a lookup on the initial cache returns a state that differs from it (one request and one
  miss are counted).
\<close>

theorem get_alters_statistics_counterexample:
  "snd (URLClassificationCache_get URLClassificationCache_init ''https://example.com/'' (JString []))
     \<noteq> URLClassificationCache_init"
  by (simp add: URLClassificationCache_get_def URLClassificationCache_init_def Let_def)

text \<open>
  Claim C7, amended.  \<open>get\<close> leaves the entry table and the capacity unchanged; it adds
  one to \<open>totalRequests\<close> and one to \<open>hits\<close> on a hit, or to \<open>misses\<close> on a miss.
\<close>

theorem get_keeps_entries_and_counts_request:
  "cache (snd (URLClassificationCache_get c u data)) = cache c
   \<and> maxCacheSize (snd (URLClassificationCache_get c u data)) = maxCacheSize c
   \<and> totalRequests (stats (snd (URLClassificationCache_get c u data)))
       = totalRequests (stats c) + 1
   \<and> hits (stats (snd (URLClassificationCache_get c u data)))
       = hits (stats c) + (if fst (URLClassificationCache_get c u data) = None then 0 else 1)
   \<and> misses (stats (snd (URLClassificationCache_get c u data)))
       = misses (stats c) + (if fst (URLClassificationCache_get c u data) = None then 1 else 0)"
  by (simp add: URLClassificationCache_get_def Let_def split: option.splits)

section \<open>Properties of the synthesizer\<close>

subsection \<open>Digits\<close>

lemma digitChar_table:
  "list_all (\<lambda>d. digitChar d \<in> set ''0123456789abcdef'') [0..<16]"
  "list_all (\<lambda>d. digitChar d \<in> set ''0123456789'') [0..<10]"
  by code_simp+

lemma digitChar_hex: "d < 16 \<Longrightarrow> digitChar d \<in> set ''0123456789abcdef''"
  using digitChar_table(1) by (simp only: list_all_iff) simp

lemma digitChar_decimal: "d < 10 \<Longrightarrow> digitChar d \<in> set ''0123456789''"
  using digitChar_table(2) by (simp only: list_all_iff) simp

lemma toStringRadix_digits:
  "2 \<le> radix \<Longrightarrow> set (toStringRadix radix n) \<subseteq> digitChar ` {..<radix}"
proof (induction radix n rule: toStringRadix.induct)
  case (1 radix n)
  show ?case
  proof (cases "n < radix")
    case True
    then show ?thesis
      by (subst toStringRadix.simps) simp
  next
    case False
    with "1.prems" have "set (toStringRadix radix (n div radix)) \<subseteq> digitChar ` {..<radix}"
      by (intro "1.IH") simp_all
    moreover have "n mod radix < radix"
      using "1.prems" by simp
    ultimately show ?thesis
      using False "1.prems" by (subst toStringRadix.simps) auto
  qed
qed

lemma toStringRadix_hex: "set (toStringRadix 16 n) \<subseteq> set ''0123456789abcdef''"
proof -
  have "set (toStringRadix 16 n) \<subseteq> digitChar ` {..<16}"
    by (rule toStringRadix_digits) simp
  also have "\<dots> \<subseteq> set ''0123456789abcdef''"
    using digitChar_hex by blast
  finally show ?thesis .
qed

lemma toStringRadix_decimal: "set (toStringRadix 10 n) \<subseteq> set ''0123456789''"
proof -
  have "set (toStringRadix 10 n) \<subseteq> digitChar ` {..<10}"
    by (rule toStringRadix_digits) simp
  also have "\<dots> \<subseteq> set ''0123456789''"
    using digitChar_decimal by blast
  finally show ?thesis .
qed

subsection \<open>The hash extension loop\<close>

lemma extendHash_length: "64 \<le> length (extendHash sessionSeed indexHex extendedHash)"
proof (induction sessionSeed indexHex extendedHash rule: extendHash.induct)
  case (1 sessionSeed indexHex extendedHash)
  show ?case
  proof (cases "length extendedHash < 64")
    case True
    then show ?thesis
      using "1.IH" by (subst extendHash.simps) (simp add: Let_def)
  next
    case False
    then show ?thesis
      by (subst extendHash.simps) simp
  qed
qed

lemma extendHash_hex:
  "set extendedHash \<subseteq> set ''0123456789abcdef'' \<Longrightarrow>
   set (extendHash sessionSeed indexHex extendedHash) \<subseteq> set ''0123456789abcdef''"
proof (induction sessionSeed indexHex extendedHash rule: extendHash.induct)
  case (1 sessionSeed indexHex extendedHash)
  show ?case
  proof (cases "length extendedHash < 64")
    case True
    let ?seedChar = "charAt sessionSeed (remainder (length extendedHash) (length sessionSeed))"
    let ?indexChar = "charAt indexHex (remainder (length extendedHash) 2)"
    let ?combinedChar =
      "toStringRadix 16 (toInt32 (parseInt16 ?seedChar) XOR toInt32 (parseInt16 ?indexChar))"
    have "set ?combinedChar \<subseteq> set ''0123456789abcdef''"
      by (rule toStringRadix_hex)
    with "1.prems" have "set (extendedHash @ ?combinedChar) \<subseteq> set ''0123456789abcdef''"
      by simp
    then have "set (extendHash sessionSeed indexHex (extendedHash @ ?combinedChar))
                      \<subseteq> set ''0123456789abcdef''"
      by (rule "1.IH" [OF True refl refl refl])
    then show ?thesis
      using True by (subst extendHash.simps) (simp add: Let_def)
  next
    case False
    then show ?thesis
      using "1.prems" by (subst extendHash.simps) simp
  qed
qed

text \<open>
  Claim C8.  Whatever the seed data, the index and the session, \<open>calculateHash\<close> returns
  64 characters, each of them a hexadecimal digit; \<open>calculateVersionHash\<close> returns \<open>v1#\<close>
  followed by the hash that \<open>calculateHash\<close> computes for index 12.
\<close>

theorem calculateHash_is_64_hex_digits:
  "length (calculateHash SessionManager dataJson index) = 64
   \<and> set (calculateHash SessionManager dataJson index) \<subseteq> set ''0123456789abcdef''
   \<and> calculateVersionHash SessionManager dataJson
       = ''v1#'' @ calculateHash SessionManager dataJson 12
   \<and> length (calculateVersionHash SessionManager dataJson) = 67"
proof -
  have len: "length (calculateHash S d i) = 64" for S d i
    by (simp add: calculateHash_def Let_def min_absorb2 extendHash_length)
  have "set (calculateHash S d i) \<subseteq> set ''0123456789abcdef''" for S d i
    unfolding calculateHash_def Let_def
    by (rule order.trans [OF set_take_subset]) (rule extendHash_hex [OF toStringRadix_hex])
  then show ?thesis
    using len by (simp add: calculateVersionHash_def Let_def)
qed

text \<open>
  Claim C9.  The session enters \<open>calculateHash\<close> through the main session id alone: with
  the same seed data and index, two session states that agree on it (or are both absent)
  give the same string, whatever their user and anonymous ids.
\<close>

theorem calculateHash_depends_on_main_session_id_only:
  "map_option main SessionManager = map_option main SessionManager' \<Longrightarrow>
   calculateHash SessionManager dataJson index = calculateHash SessionManager' dataJson index"
  by (cases SessionManager; cases SessionManager')
     (simp_all add: calculateHash_def getMainSessionId_def)

theorem calculateHash_depends_on_main_session_id_only_witness:
  "map_option main (Some \<lparr>main = ''3f2a9c41-7b6d-4e10-9a55-0c1d2e3f4a5b'',
                          user = ''11111111-2222-4333-8444-555555555555'',
                          anonymous = ''aaaaaaaa-bbbb-4ccc-8ddd-eeeeeeeeeeee''\<rparr>)
     = map_option main (Some \<lparr>main = ''3f2a9c41-7b6d-4e10-9a55-0c1d2e3f4a5b'',
                              user = ''99999999-8888-4777-8666-555555555555'',
                              anonymous = ''ffffffff-eeee-4ddd-8ccc-bbbbbbbbbbbb''\<rparr>)
   \<and> calculateHash (Some \<lparr>main = ''3f2a9c41-7b6d-4e10-9a55-0c1d2e3f4a5b'',
                          user = ''11111111-2222-4333-8444-555555555555'',
                          anonymous = ''aaaaaaaa-bbbb-4ccc-8ddd-eeeeeeeeeeee''\<rparr>) ''{\"a\":1}'' 7
     = calculateHash (Some \<lparr>main = ''3f2a9c41-7b6d-4e10-9a55-0c1d2e3f4a5b'',
                            user = ''99999999-8888-4777-8666-555555555555'',
                            anonymous = ''ffffffff-eeee-4ddd-8ccc-bbbbbbbbbbbb''\<rparr>) ''{\"a\":1}'' 7"
proof -
  let ?S = "Some \<lparr>main = ''3f2a9c41-7b6d-4e10-9a55-0c1d2e3f4a5b'',
                   user = ''11111111-2222-4333-8444-555555555555'',
                   anonymous = ''aaaaaaaa-bbbb-4ccc-8ddd-eeeeeeeeeeee''\<rparr>"
  let ?S' = "Some \<lparr>main = ''3f2a9c41-7b6d-4e10-9a55-0c1d2e3f4a5b'',
                    user = ''99999999-8888-4777-8666-555555555555'',
                    anonymous = ''ffffffff-eeee-4ddd-8ccc-bbbbbbbbbbbb''\<rparr>"
  have same: "map_option main ?S = map_option main ?S'"
    by simp
  from same calculateHash_depends_on_main_session_id_only [OF same, of "''{\"a\":1}''" 7]
  show ?thesis
    by (rule conjI)
qed

text \<open>Two values of the hash, computed step by step.\<close>

lemma calculateHash_example:
  "calculateHash (Some \<lparr>main = ''3f2a9c41-7b6d-4e10-9a55-0c1d2e3f4a5b'', user = uid,
                         anonymous = aid\<rparr>) ''\"abc\"'' 12
     = ''63e90f773326904d3326904d3326904d3326904d3326904d3326904d3326904d''"
proof -
  have base: "toStringRadix 16 (nat \<bar>sint (foldl hashStep 0
                (numberToString 10 12 @ '':'' @ ''\"abc\"''))\<bar>) = ''63e90f77''"
    by (simp add: numberToString_def toStringRadix.simps digitChar_def hashStep_def)
  have index: "padStart2 (numberToString 16 12) = ''0c''"
    by (simp add: padStart2_def numberToString_def toStringRadix.simps digitChar_def)
  have seed: "take 8 (filter (\<lambda>c. c \<noteq> CHR ''-'') ''3f2a9c41-7b6d-4e10-9a55-0c1d2e3f4a5b'')
                = ''3f2a9c41''"
    by simp
  have loop: "extendHash ''3f2a9c41'' ''0c'' ''63e90f77''
                = ''63e90f773326904d3326904d3326904d3326904d3326904d3326904d3326904d''"
    by code_simp
  show ?thesis
    unfolding calculateHash_def Let_def getMainSessionId_def
    by (simp only: option.case session_ids.simps base index seed loop) simp
qed

lemma calculateHash_default_session_example:
  "calculateHash None ''{}'' 999
     = ''64824963e0c43e3ee0c43e3ee0c43e3ee0c43e3ee0c43e3ee0c43e3ee0c43e3e''"
proof -
  have base: "toStringRadix 16 (nat \<bar>sint (foldl hashStep 0
                (numberToString 10 999 @ '':'' @ ''{}''))\<bar>) = ''64824963''"
    by (simp add: numberToString_def toStringRadix.simps digitChar_def hashStep_def)
  have index: "padStart2 (numberToString 16 999) = ''3e7''"
    by (simp add: padStart2_def numberToString_def toStringRadix.simps digitChar_def)
  have seed: "take 8 (filter (\<lambda>c. c \<noteq> CHR ''-'') ''default-session-id'') = ''defaults''"
    by simp
  have loop: "extendHash ''defaults'' ''3e7'' ''64824963''
                = ''64824963e0c43e3ee0c43e3ee0c43e3ee0c43e3ee0c43e3ee0c43e3ee0c43e3e''"
    by code_simp
  show ?thesis
    unfolding calculateHash_def Let_def
    by (simp only: option.case base index seed loop) simp
qed

section \<open>Properties of the classifier\<close>

subsection \<open>Cache keys\<close>

lemma key_chars_lower:
  "list_all (\<lambda>c. toLowerCase_char c = c) ''_-0123456789''"
  by code_simp

lemma toLowerCase_key_tail:
  assumes "set s \<subseteq> set ''_-0123456789''"
  shows "toLowerCase s = s"
proof -
  have "toLowerCase_char c = c" if "c \<in> set s" for c
    using key_chars_lower that assms unfolding list_all_iff by blast
  then show ?thesis
    unfolding toLowerCase_def by (intro map_idI)
qed

lemma numberToString_decimal: "set (numberToString 10 i) \<subseteq> set ''-0123456789''"
proof -
  define K where "K = set ''-0123456789''"
  have digits: "set (toStringRadix 10 n) \<subseteq> K" for n
    unfolding K_def using toStringRadix_decimal [of n] set_subset_Cons by fastforce
  have minus: "CHR ''-'' \<in> K"
    unfolding K_def by simp
  have "set (numberToString 10 i) \<subseteq> K"
    using digits minus by (simp add: numberToString_def)
  then show ?thesis
    unfolding K_def .
qed

lemma generateCacheKey_shape:
  "\<exists>t. generateCacheKey u data = u @ t
       \<and> (t = [] \<or> (\<exists>n. t = CHR ''_'' # n \<and> set n \<subseteq> set ''-0123456789''))"
proof (cases data)
  case (JString s)
  show ?thesis
  proof (cases "s = []")
    case True
    with JString show ?thesis by (simp add: generateCacheKey_def)
  next
    case False
    let ?n = "numberToString 10 (sint (foldl hashStep 0 (take 100 s)))"
    have "generateCacheKey u data = u @ CHR ''_'' # ?n"
      using JString False by (simp add: generateCacheKey_def)
    moreover have "set ?n \<subseteq> set ''-0123456789''"
      by (rule numberToString_decimal)
    ultimately show ?thesis by blast
  qed
qed (simp_all add: generateCacheKey_def)

text \<open>
  Two requests can share a key: an address with a payload, and the address that already
  ends in the tail the payload would add.
\<close>

lemma colliding_keys_example:
  "generateCacheKey ''https://x.example.com/analytics'' (JString ''a'')
     = generateCacheKey ''https://x.example.com/analytics_97'' (JString [])"
  by (simp add: generateCacheKey_def hashStep_def numberToString_def toStringRadix.simps
        digitChar_def)

lemma same_separator:
  assumes eq: "u @ c # n = u' @ c # n'" and "c \<notin> set n" and "c \<notin> set n'"
  shows "u = u'"
proof -
  from eq obtain us where
    "(u = u' @ us \<and> us @ c # n = c # n') \<or> (u @ us = u' \<and> c # n = us @ c # n')"
    by (auto simp: append_eq_append_conv2)
  then show ?thesis
  proof
    assume a: "u = u' @ us \<and> us @ c # n = c # n'"
    show ?thesis
    proof (cases us)
      case Nil
      with a show ?thesis by simp
    next
      case (Cons x xs)
      with a have "n' = xs @ c # n" by simp
      with assms(3) show ?thesis by simp
    qed
  next
    assume a: "u @ us = u' \<and> c # n = us @ c # n'"
    show ?thesis
    proof (cases us)
      case Nil
      with a show ?thesis by simp
    next
      case (Cons x xs)
      with a have "n = xs @ c # n'" by simp
      with assms(2) show ?thesis by simp
    qed
  qed
qed

subsection \<open>Patterns and key tails\<close>

lemma sublist_before_tail:
  assumes "p \<noteq> []" and "last p \<notin> set s"
  shows "sublist p (u @ s) \<longleftrightarrow> sublist p u"
proof
  assume "sublist p (u @ s)"
  then consider "sublist p u" | "sublist p s"
    | xs1 xs2 where "p = xs1 @ xs2" "suffix xs1 u" "prefix xs2 s"
    by (auto simp: sublist_append)
  then show "sublist p u"
  proof cases
    case 1
    then show ?thesis .
  next
    case 2
    then have "set p \<subseteq> set s" by (rule set_mono_sublist)
    with assms show ?thesis
      using last_in_set by blast
  next
    case 3
    show ?thesis
    proof (cases "xs2 = []")
      case True
      with 3 show ?thesis by auto
    next
      case False
      with 3 have "last p = last xs2" by simp
      moreover have "last xs2 \<in> set s"
        using False 3(3) last_in_set set_mono_prefix by blast
      ultimately show ?thesis using assms by simp
    qed
  qed
next
  assume "sublist p u"
  then show "sublist p (u @ s)"
    by (metis sublist_append)
qed

lemma tables_clear_of_key_tail:
  "clear_of_key_tail (map toLowerCase ESSENTIAL_ENDPOINTS)"
  "clear_of_key_tail (map toLowerCase INTERCEPT_PATTERNS)"
  "clear_of_key_tail importantPatterns"
  by code_simp+

lemma list_ex_before_tail:
  assumes "clear_of_key_tail patterns" and "set s \<subseteq> set ''_-0123456789''"
  shows "list_ex (\<lambda>p. str_includes (l @ s) p) patterns \<longleftrightarrow> list_ex (\<lambda>p. str_includes l p) patterns"
proof -
  have "str_includes (l @ s) p \<longleftrightarrow> str_includes l p" if "p \<in> set patterns" for p
  proof -
    from that assms(1) have "p \<noteq> []" and "last p \<notin> set ''_-0123456789''"
      unfolding clear_of_key_tail_def list_all_iff by blast+
    with assms(2) have "last p \<notin> set s" by blast
    with \<open>p \<noteq> []\<close> show ?thesis
      unfolding str_includes_def by (rule sublist_before_tail)
  qed
  then show ?thesis
    unfolding list_ex_iff by blast
qed

lemma matchesAny_before_tail:
  assumes "clear_of_key_tail (map toLowerCase patterns)" and "set s \<subseteq> set ''_-0123456789''"
  shows "matchesAny (toLowerCase (u @ s)) patterns \<longleftrightarrow> matchesAny (toLowerCase u) patterns"
proof -
  have "toLowerCase (u @ s) = toLowerCase u @ s"
    using toLowerCase_key_tail [OF assms(2)] by (simp add: toLowerCase_def)
  moreover have "matchesAny l patterns = list_ex (\<lambda>p. str_includes l p) (map toLowerCase patterns)" for l
    by (simp add: matchesAny_def list_ex_iff)
  ultimately show ?thesis
    using list_ex_before_tail [OF assms] by simp
qed

lemma interceptDecision_verdict:
  "shouldIntercept (interceptDecision urlLower) \<longleftrightarrow>
     matchesAny urlLower INTERCEPT_PATTERNS
     \<and> \<not> list_ex (\<lambda>pattern. str_includes urlLower pattern) importantPatterns"
  by (simp add: interceptDecision_def Let_def)

lemma urlVerdict_iff:
  "urlVerdict u \<longleftrightarrow>
     \<not> matchesAny (toLowerCase u) ESSENTIAL_ENDPOINTS
     \<and> matchesAny (toLowerCase u) INTERCEPT_PATTERNS
     \<and> \<not> list_ex (\<lambda>pattern. str_includes (toLowerCase u) pattern) importantPatterns"
  by (simp add: urlVerdict_def Let_def interceptDecision_verdict)

lemma urlVerdict_before_tail:
  assumes "set s \<subseteq> set ''_-0123456789''"
  shows "urlVerdict (u @ s) = urlVerdict u"
proof -
  have "toLowerCase (u @ s) = toLowerCase u @ s"
    using toLowerCase_key_tail [OF assms] by (simp add: toLowerCase_def)
  then have "list_ex (\<lambda>p. str_includes (toLowerCase (u @ s)) p) importantPatterns
             \<longleftrightarrow> list_ex (\<lambda>p. str_includes (toLowerCase u) p) importantPatterns"
    using list_ex_before_tail [OF tables_clear_of_key_tail(3) assms] by simp
  then show ?thesis
    unfolding urlVerdict_iff
    using matchesAny_before_tail [OF tables_clear_of_key_tail(1) assms]
      matchesAny_before_tail [OF tables_clear_of_key_tail(2) assms]
    by simp
qed

lemma same_key_same_verdict:
  assumes "generateCacheKey u data = generateCacheKey u' data'"
  shows "urlVerdict u = urlVerdict u'"
proof -
  obtain t where t: "generateCacheKey u data = u @ t"
    "t = [] \<or> (\<exists>n. t = CHR ''_'' # n \<and> set n \<subseteq> set ''-0123456789'')"
    using generateCacheKey_shape by blast
  obtain t' where t': "generateCacheKey u' data' = u' @ t'"
    "t' = [] \<or> (\<exists>n. t' = CHR ''_'' # n \<and> set n \<subseteq> set ''-0123456789'')"
    using generateCacheKey_shape by blast
  have eq: "u @ t = u' @ t'"
    using assms t(1) t'(1) by simp
  have tail: "set x \<subseteq> set ''_-0123456789''"
    if "x = [] \<or> (\<exists>n. x = CHR ''_'' # n \<and> set n \<subseteq> set ''-0123456789'')" for x
    using that by auto
  show ?thesis
  proof (cases "t = []")
    case True
    then have "u = u' @ t'" using eq by simp
    then show ?thesis
      using urlVerdict_before_tail [OF tail [OF t'(2)]] by simp
  next
    case False
    note t_ne = False
    show ?thesis
    proof (cases "t' = []")
      case True
      then have "u' = u @ t" using eq by simp
      then show ?thesis
        using urlVerdict_before_tail [OF tail [OF t(2)]] by simp
    next
      case False
      from t_ne t(2) obtain n where n: "t = CHR ''_'' # n" "set n \<subseteq> set ''-0123456789''"
        by blast
      from False t'(2) obtain n' where n': "t' = CHR ''_'' # n'" "set n' \<subseteq> set ''-0123456789''"
        by blast
      have "CHR ''_'' \<notin> set n" and "CHR ''_'' \<notin> set n'"
        using n(2) n'(2) by auto
      with eq n(1) n'(1) have "u = u'"
        by (intro same_separator [of u "CHR ''_''" n u' n']) simp_all
      then show ?thesis by simp
    qed
  qed
qed

subsection \<open>The cache holds verdicts of its addresses\<close>

lemma consistent_initial: "consistent URLClassificationCache_init"
  by (simp add: consistent_def URLClassificationCache_init_def)

lemma consistent_clear: "consistent (URLClassificationCache_clear c)"
  by (simp add: consistent_def URLClassificationCache_clear_def)

lemma get_cache: "cache (snd (URLClassificationCache_get c u data)) = cache c"
  by (simp add: URLClassificationCache_get_def Let_def split: option.splits)

lemma get_lookup:
  "fst (URLClassificationCache_get c u data) = map_of (cache c) (generateCacheKey u data)"
  by (simp add: URLClassificationCache_get_def Let_def split: option.splits)

lemma consistent_get: "consistent c \<Longrightarrow> consistent (snd (URLClassificationCache_get c u data))"
  by (simp add: consistent_def get_cache)

lemma consistent_set:
  assumes "consistent c" and "shouldIntercept result = urlVerdict u"
  shows "consistent (URLClassificationCache_set c u data result now)"
proof -
  let ?m = "if maxCacheSize c \<le> length (cache c)
            then (case cache c of [] \<Rightarrow> [] | (firstKey, e) # rest \<Rightarrow> Map_delete (cache c) firstKey)
            else cache c"
  let ?entry = "\<lparr>shouldIntercept = shouldIntercept result, reason = reason result,
                 timestamp = now, url = u\<rparr>"
  let ?good = "\<lambda>(k, e). shouldIntercept e = urlVerdict (url e)
                         \<and> (\<exists>data. k = generateCacheKey (url e) data)"
  have old: "?good kv" if "kv \<in> set ?m" for kv
    using that evicted_entries [of "maxCacheSize c" "cache c"] assms(1)
    unfolding consistent_def list_all_iff by blast
  have new: "?good (generateCacheKey u data, ?entry)"
    using assms(2) by auto
  have "?good kv" if "kv \<in> set (Map_set ?m (generateCacheKey u data) ?entry)" for kv
    using that set_Map_set [of ?m "generateCacheKey u data" ?entry] old new by blast
  then show ?thesis
    unfolding consistent_def list_all_iff
    by (simp add: URLClassificationCache_set_def Let_def)
qed

lemma hit_verdict:
  assumes "consistent c" and "map_of (cache c) (generateCacheKey u data) = Some cached"
  shows "shouldIntercept cached = urlVerdict u"
proof -
  have "(generateCacheKey u data, cached) \<in> set (cache c)"
    using assms(2) by (rule map_of_SomeD)
  with assms(1) obtain data' where
    "shouldIntercept cached = urlVerdict (url cached)"
    "generateCacheKey u data = generateCacheKey (url cached) data'"
    unfolding consistent_def list_all_iff by blast
  then show ?thesis
    using same_key_same_verdict by metis
qed

lemma shouldInterceptUrl_unfold:
  "shouldInterceptUrl c (JString u) data now =
     (case map_of (cache c) (generateCacheKey u data) of
        Some cached \<Rightarrow> (shouldIntercept cached, snd (URLClassificationCache_get c u data))
      | None \<Rightarrow>
          (urlVerdict u,
           URLClassificationCache_set (snd (URLClassificationCache_get c u data)) u data
             (if matchesAny (toLowerCase u) ESSENTIAL_ENDPOINTS
              then \<lparr>shouldIntercept = False, reason = EssentialProtection\<rparr>
              else interceptDecision (toLowerCase u)) now))"
proof -
  obtain r c1 where get: "URLClassificationCache_get c u data = (r, c1)"
    by (cases "URLClassificationCache_get c u data")
  then have r: "r = map_of (cache c) (generateCacheKey u data)"
    using get_lookup [of c u data] by simp
  show ?thesis
    by (cases r) (use get r in \<open>simp_all add: shouldInterceptUrl_def urlVerdict_def Let_def\<close>)
qed

lemma shouldInterceptUrl_verdict:
  assumes "consistent c"
  shows "fst (shouldInterceptUrl c (JString u) data now) = urlVerdict u"
proof (cases "map_of (cache c) (generateCacheKey u data)")
  case None
  then show ?thesis by (simp add: shouldInterceptUrl_unfold)
next
  case (Some cached)
  then show ?thesis
    using hit_verdict [OF assms Some] by (simp add: shouldInterceptUrl_unfold)
qed

lemma shouldInterceptUrl_consistent:
  assumes "consistent c"
  shows "consistent (snd (shouldInterceptUrl c address data now))"
proof (cases address)
  case (JString u)
  show ?thesis
  proof (cases "map_of (cache c) (generateCacheKey u data)")
    case None
    have "consistent (URLClassificationCache_set (snd (URLClassificationCache_get c u data)) u data
             (if matchesAny (toLowerCase u) ESSENTIAL_ENDPOINTS
              then \<lparr>shouldIntercept = False, reason = EssentialProtection\<rparr>
              else interceptDecision (toLowerCase u)) now)"
      by (rule consistent_set [OF consistent_get [OF assms]]) (simp add: urlVerdict_def Let_def)
    then show ?thesis
      using None JString by (simp add: shouldInterceptUrl_unfold)
  next
    case (Some cached)
    then show ?thesis
      using JString consistent_get [OF assms] by (simp add: shouldInterceptUrl_unfold)
  qed
next
  case (JObject j)
  then show ?thesis using assms by (simp add: shouldInterceptUrl_def)
next
  case JFalsy
  then show ?thesis using assms by (simp add: shouldInterceptUrl_def)
qed

lemma reachable_consistent: "reachable c \<Longrightarrow> consistent c"
  by (induction rule: reachable.induct)
     (simp_all add: consistent_initial shouldInterceptUrl_consistent consistent_clear)

lemma reachable_verdict:
  "reachable c \<Longrightarrow> fst (shouldInterceptUrl c (JString u) data now) = urlVerdict u"
  by (rule shouldInterceptUrl_verdict [OF reachable_consistent])

lemma key_without_string_payload:
  "generateCacheKey u (JObject j) = generateCacheKey u (JString [])"
  "generateCacheKey u JFalsy = generateCacheKey u (JString [])"
  by (simp_all add: generateCacheKey_def)

lemma shouldInterceptUrl_key_only:
  assumes "generateCacheKey u data = generateCacheKey u data'"
  shows "shouldInterceptUrl c (JString u) data now = shouldInterceptUrl c (JString u) data' now"
proof -
  have get: "URLClassificationCache_get c u data = URLClassificationCache_get c u data'"
    using assms by (simp add: URLClassificationCache_get_def)
  have set: "URLClassificationCache_set c' u data r now = URLClassificationCache_set c' u data' r now"
    for c' r
    using assms by (simp add: URLClassificationCache_set_def)
  show ?thesis
    by (simp add: shouldInterceptUrl_def get set Let_def split: prod.splits option.splits)
qed

subsection \<open>Classification through the cache\<close>

text \<open>
  Claim C1, as stated: an address with a code-indexing pattern and a block keyword, and
  with no essential and no precise-block pattern, is intercepted.  It is not when the
  address also holds one of the important-URL patterns (here \<open>localhost:\<close>).
\<close>

theorem keyword_beats_whitelist_counterexample:
  "matchesAny (toLowerCase ''http://localhost:3000/checkpoint-blobs/report-error'')
     CODE_INDEXING_PATTERNS
   \<and> matchesAny (toLowerCase ''http://localhost:3000/checkpoint-blobs/report-error'')
       TELEMETRY_PATTERNS
   \<and> \<not> matchesAny (toLowerCase ''http://localhost:3000/checkpoint-blobs/report-error'')
         ESSENTIAL_ENDPOINTS
   \<and> \<not> matchesAny (toLowerCase ''http://localhost:3000/checkpoint-blobs/report-error'')
         PRECISE_TELEMETRY_ENDPOINTS
   \<and> fst (shouldInterceptUrl URLClassificationCache_init
         (JString ''http://localhost:3000/checkpoint-blobs/report-error'') (JString []) 0)
       = False"
  by code_simp

text \<open>
  Claim C1, amended.  In every cache state the program reaches, an address that contains
  a code-indexing pattern and a pattern of \<open>INTERCEPT_PATTERNS\<close> (the generic keywords are
  among them), no essential pattern and none of the important-URL patterns is intercepted:
  the whitelist match does not stop the keyword match.  \<open>shouldInterceptUrl\<close> has no
  precise-block tier, so no hypothesis about it is needed.
\<close>

theorem keyword_beats_whitelist:
  assumes "reachable c"
    and "matchesAny (toLowerCase u) CODE_INDEXING_PATTERNS"
    and "matchesAny (toLowerCase u) INTERCEPT_PATTERNS"
    and "\<not> matchesAny (toLowerCase u) ESSENTIAL_ENDPOINTS"
    and "\<not> list_ex (\<lambda>pattern. str_includes (toLowerCase u) pattern) importantPatterns"
  shows "fst (shouldInterceptUrl c (JString u) data now) = True"
  using assms by (simp add: reachable_verdict urlVerdict_iff)

theorem keyword_beats_whitelist_witness:
  "reachable URLClassificationCache_init
   \<and> matchesAny (toLowerCase ''https://x.example.com/checkpoint-blobs/report-error'')
       CODE_INDEXING_PATTERNS
   \<and> matchesAny (toLowerCase ''https://x.example.com/checkpoint-blobs/report-error'')
       INTERCEPT_PATTERNS
   \<and> \<not> matchesAny (toLowerCase ''https://x.example.com/checkpoint-blobs/report-error'')
         ESSENTIAL_ENDPOINTS
   \<and> \<not> list_ex (\<lambda>pattern. str_includes
           (toLowerCase ''https://x.example.com/checkpoint-blobs/report-error'') pattern)
         importantPatterns
   \<and> fst (shouldInterceptUrl URLClassificationCache_init
         (JString ''https://x.example.com/checkpoint-blobs/report-error'')
         (JString ''{}'') 1700000000000) = True"
proof -
  let ?u = "''https://x.example.com/checkpoint-blobs/report-error''"
  have r: "reachable URLClassificationCache_init"
    by (rule reachable.initial)
  have w: "matchesAny (toLowerCase ?u) CODE_INDEXING_PATTERNS"
    by code_simp
  have k: "matchesAny (toLowerCase ?u) INTERCEPT_PATTERNS"
    by code_simp
  have e: "\<not> matchesAny (toLowerCase ?u) ESSENTIAL_ENDPOINTS"
    by code_simp
  have i: "\<not> list_ex (\<lambda>pattern. str_includes (toLowerCase ?u) pattern) importantPatterns"
    by code_simp
  from r w k e i keyword_beats_whitelist [OF r w k e i, of "JString ''{}''" 1700000000000]
  show ?thesis by (intro conjI)
qed

text \<open>
  Claim C2.  In every cache state the program reaches, an address that contains an
  essential pattern is not intercepted, whatever other patterns it contains.
\<close>

theorem essential_endpoint_never_intercepted:
  assumes "reachable c" and "matchesAny (toLowerCase u) ESSENTIAL_ENDPOINTS"
  shows "fst (shouldInterceptUrl c (JString u) data now) = False"
  using assms by (simp add: reachable_verdict urlVerdict_iff)

theorem essential_endpoint_never_intercepted_witness:
  "reachable URLClassificationCache_init
   \<and> matchesAny (toLowerCase ''https://api.example.com/client-metrics/analytics'')
       ESSENTIAL_ENDPOINTS
   \<and> matchesAny (toLowerCase ''https://api.example.com/client-metrics/analytics'')
       PRECISE_TELEMETRY_ENDPOINTS
   \<and> matchesAny (toLowerCase ''https://api.example.com/client-metrics/analytics'')
       INTERCEPT_PATTERNS
   \<and> fst (shouldInterceptUrl URLClassificationCache_init
         (JString ''https://api.example.com/client-metrics/analytics'')
         (JString ''{}'') 1700000000000) = False"
proof -
  let ?u = "''https://api.example.com/client-metrics/analytics''"
  have r: "reachable URLClassificationCache_init"
    by (rule reachable.initial)
  have e: "matchesAny (toLowerCase ?u) ESSENTIAL_ENDPOINTS"
    by code_simp
  have p: "matchesAny (toLowerCase ?u) PRECISE_TELEMETRY_ENDPOINTS"
    by code_simp
  have k: "matchesAny (toLowerCase ?u) INTERCEPT_PATTERNS"
    by code_simp
  from r e p k essential_endpoint_never_intercepted [OF r e, of "JString ''{}''" 1700000000000]
  show ?thesis by (intro conjI)
qed

text \<open>
  Claim C3, as stated: a generic keyword in the payload makes \<open>shouldInterceptUrl\<close>
  intercept an address that matches no essential, precise-block or code-indexing pattern.
  It does not: the payload only enters the cache key.
\<close>

theorem payload_keyword_not_scanned_counterexample:
  "\<not> matchesAny (toLowerCase ''https://example.com/unknown-endpoint'') ESSENTIAL_ENDPOINTS
   \<and> \<not> matchesAny (toLowerCase ''https://example.com/unknown-endpoint'')
         PRECISE_TELEMETRY_ENDPOINTS
   \<and> \<not> matchesAny (toLowerCase ''https://example.com/unknown-endpoint'')
         CODE_INDEXING_PATTERNS
   \<and> matchesAny (toLowerCase ''{\"event\":\"telemetry\"}'') TELEMETRY_PATTERNS
   \<and> fst (shouldInterceptUrl URLClassificationCache_init
         (JString ''https://example.com/unknown-endpoint'')
         (JString ''{\"event\":\"telemetry\"}'') 0) = False"
proof -
  let ?u = "''https://example.com/unknown-endpoint''"
  have "\<not> urlVerdict ?u"
    by code_simp
  then have "fst (shouldInterceptUrl URLClassificationCache_init (JString ?u)
                (JString ''{\"event\":\"telemetry\"}'') 0) = False"
    by (simp add: shouldInterceptUrl_unfold URLClassificationCache_init_def)
  moreover have "\<not> matchesAny (toLowerCase ?u) ESSENTIAL_ENDPOINTS"
    "\<not> matchesAny (toLowerCase ?u) PRECISE_TELEMETRY_ENDPOINTS"
    "\<not> matchesAny (toLowerCase ?u) CODE_INDEXING_PATTERNS"
    "matchesAny (toLowerCase ''{\"event\":\"telemetry\"}'') TELEMETRY_PATTERNS"
    by code_simp+
  ultimately show ?thesis by (intro conjI)
qed

text \<open>
  Claim C3, amended.  The payload is scanned by \<open>SmartDataClassifier.shouldInterceptUpload\<close>:
  for an address without essential pattern and a truthy payload whose text contains a
  generic keyword it answers true.  \<open>shouldInterceptUrl\<close> decides from the address alone:
  in every cache state the program reaches its answer is the one for the empty payload.
\<close>

theorem payload_keyword_scanned_by_upload_classifier:
  assumes "reachable c"
    and "\<not> isEssentialEndpoint u"
    and "truthy data"
    and "matchesAny (toLowerCase (dataStr data)) TELEMETRY_PATTERNS"
  shows "shouldInterceptUpload data u
         \<and> fst (shouldInterceptUrl c (JString u) data now)
             = fst (shouldInterceptUrl c (JString u) (JString []) now)"
proof
  have "isTelemetryData data u"
    using assms(3,4)
    by (auto simp: isTelemetryData_def matchesDataOrContext_def matchesAny_def Let_def list_ex_iff)
  then show "shouldInterceptUpload data u"
    using assms(2) by (simp add: shouldInterceptUpload_def)
  show "fst (shouldInterceptUrl c (JString u) data now)
          = fst (shouldInterceptUrl c (JString u) (JString []) now)"
    using assms(1) by (simp add: reachable_verdict)
qed

theorem payload_keyword_scanned_by_upload_classifier_witness:
  "reachable URLClassificationCache_init
   \<and> \<not> isEssentialEndpoint ''https://example.com/unknown-endpoint''
   \<and> truthy (JString ''{\"event\":\"telemetry\"}'')
   \<and> matchesAny (toLowerCase (dataStr (JString ''{\"event\":\"telemetry\"}''))) TELEMETRY_PATTERNS
   \<and> shouldInterceptUpload (JString ''{\"event\":\"telemetry\"}'')
         ''https://example.com/unknown-endpoint''
   \<and> fst (shouldInterceptUrl URLClassificationCache_init
         (JString ''https://example.com/unknown-endpoint'')
         (JString ''{\"event\":\"telemetry\"}'') 0)
       = fst (shouldInterceptUrl URLClassificationCache_init
         (JString ''https://example.com/unknown-endpoint'') (JString []) 0)"
proof -
  let ?u = "''https://example.com/unknown-endpoint''"
  let ?d = "JString ''{\"event\":\"telemetry\"}''"
  have r: "reachable URLClassificationCache_init"
    by (rule reachable.initial)
  have e: "\<not> isEssentialEndpoint ?u"
    by code_simp
  have t: "truthy ?d"
    by simp
  have k: "matchesAny (toLowerCase (dataStr ?d)) TELEMETRY_PATTERNS"
    by code_simp
  from r e t k payload_keyword_scanned_by_upload_classifier [OF r e t k, of 0]
  show ?thesis by (intro conjI) simp_all
qed

text \<open>
  Claim C4.  In every cache state the program reaches, an address that contains no
  pattern of \<open>INTERCEPT_PATTERNS\<close> is not intercepted, and neither is the empty address;
  a payload that is not a string gives the same answer and the same cache as the empty
  string.
\<close>

theorem unmatched_address_is_allowed:
  assumes "reachable c" and "\<not> matchesAny (toLowerCase u) INTERCEPT_PATTERNS"
  shows "fst (shouldInterceptUrl c (JString u) data now) = False
         \<and> fst (shouldInterceptUrl c (JString []) data now) = False
         \<and> shouldInterceptUrl c (JString u) (JObject j) now
             = shouldInterceptUrl c (JString u) (JString []) now
         \<and> shouldInterceptUrl c (JString u) JFalsy now
             = shouldInterceptUrl c (JString u) (JString []) now"
proof (intro conjI)
  show "fst (shouldInterceptUrl c (JString u) data now) = False"
    using assms by (simp add: reachable_verdict urlVerdict_iff)
  have "\<not> urlVerdict []"
    by code_simp
  then show "fst (shouldInterceptUrl c (JString []) data now) = False"
    using assms(1) by (simp add: reachable_verdict)
  show "shouldInterceptUrl c (JString u) (JObject j) now
          = shouldInterceptUrl c (JString u) (JString []) now"
    by (rule shouldInterceptUrl_key_only) (rule key_without_string_payload)
  show "shouldInterceptUrl c (JString u) JFalsy now
          = shouldInterceptUrl c (JString u) (JString []) now"
    by (rule shouldInterceptUrl_key_only) (rule key_without_string_payload)
qed

theorem unmatched_address_is_allowed_witness:
  "reachable URLClassificationCache_init
   \<and> \<not> matchesAny (toLowerCase ''https://example.com/unknown-endpoint'') INTERCEPT_PATTERNS
   \<and> fst (shouldInterceptUrl URLClassificationCache_init
         (JString ''https://example.com/unknown-endpoint'') (JObject ''{\"a\":1}'') 0) = False
   \<and> fst (shouldInterceptUrl URLClassificationCache_init (JString []) (JObject ''{\"a\":1}'') 0)
       = False"
proof -
  let ?u = "''https://example.com/unknown-endpoint''"
  have r: "reachable URLClassificationCache_init"
    by (rule reachable.initial)
  have k: "\<not> matchesAny (toLowerCase ?u) INTERCEPT_PATTERNS"
    by code_simp
  note allowed = unmatched_address_is_allowed [OF r k, of "JObject ''{\"a\":1}''" 0 "[]"]
  from r k allowed [THEN conjunct1] allowed [THEN conjunct2, THEN conjunct1]
  show ?thesis by (intro conjI)
qed

subsection \<open>The fetch replacement\<close>

lemma feature_vector_endpoint_is_essential:
  assumes "isFeatureVectorEndpoint u"
  shows "matchesAny (toLowerCase u) ESSENTIAL_ENDPOINTS"
proof -
  have "str_includes (toLowerCase u) ''report-feature-vector''"
    using assms by (simp add: isFeatureVectorEndpoint_def split: if_splits)
  moreover have "toLowerCase ''report-feature-vector'' = ''report-feature-vector''"
    by code_simp
  moreover have "''report-feature-vector'' \<in> set ESSENTIAL_ENDPOINTS"
    by (simp add: ESSENTIAL_ENDPOINTS_def)
  ultimately show ?thesis
    unfolding matchesAny_def list_ex_iff by metis
qed

lemma fabricated_responses:
  "ok mockResponse" "status mockResponse = 200" "bodyText mockResponse = ''{}''"
  "ok segmentResponse" "status segmentResponse = 200"
  "bodyText segmentResponse = ''{\"success\": true, \"batch\": {\"sent\": true}}''"
  by (simp_all add: mockResponse_def segmentResponse_def)

text \<open>
  Claim C10, as stated: an address that \<open>shouldInterceptUrl\<close> intercepts gets a fabricated
  response whose body is the empty JSON object.  For an address with \<open>/v1/batch\<close> the
  replacement of \<open>fetch\<close> answers from its Segment branch, with another body.
\<close>

theorem intercepted_fetch_body_counterexample:
  "fst (shouldInterceptUrl URLClassificationCache_init
         (JString ''https://x.example.com/v1/batch'') (orEmpty JFalsy) 0) = True
   \<and> fst (fetch URLClassificationCache_init ''https://x.example.com/v1/batch'' JFalsy 0)
       = MockResponse segmentResponse
   \<and> bodyText segmentResponse \<noteq> ''{}''"
  by code_simp

text \<open>
  Claim C10, amended.  In every cache state the program reaches, when \<open>shouldInterceptUrl\<close>
  intercepts the address, the replacement of \<open>fetch\<close> makes no call to the original
  \<open>fetch\<close> and resolves to a fabricated response with \<open>ok\<close> true and status 200; its body
  is the empty JSON object, except that an address which the upload classifier lets pass
  and which contains \<open>segment.io\<close>, \<open>api.segment.io\<close>, \<open>/v1/batch\<close> or \<open>/v1/track\<close> gets the
  Segment acknowledgement.
\<close>

theorem intercepted_fetch_is_answered_locally:
  assumes "reachable c"
    and "fst (shouldInterceptUrl c (JString u) (orEmpty body) now)"
  shows "\<exists>r. fst (fetch c u body now) = MockResponse r \<and> ok r \<and> status r = 200
             \<and> bodyText r =
                 (if \<not> shouldInterceptUpload (orEmpty body) u
                     \<and> (str_includes u ''segment.io'' \<or> str_includes u ''api.segment.io''
                        \<or> str_includes u ''/v1/batch'' \<or> str_includes u ''/v1/track'')
                  then ''{\"success\": true, \"batch\": {\"sent\": true}}'' else ''{}'')"
proof -
  have "urlVerdict u"
    using assms by (simp add: reachable_verdict)
  then have "\<not> matchesAny (toLowerCase u) ESSENTIAL_ENDPOINTS"
    by (simp add: urlVerdict_iff)
  then have no_spoof: "\<not> isFeatureVectorEndpoint u"
    using feature_vector_endpoint_is_essential by blast
  show ?thesis
  proof (cases "shouldInterceptUpload (orEmpty body) u")
    case True
    then have "fst (fetch c u body now) = MockResponse mockResponse"
      using no_spoof by (simp add: fetch_def)
    then show ?thesis
      using True fabricated_responses by simp
  next
    case False
    show ?thesis
    proof (cases "str_includes u ''segment.io'' \<or> str_includes u ''api.segment.io''
                  \<or> str_includes u ''/v1/batch'' \<or> str_includes u ''/v1/track''")
      case True
      then have "fst (fetch c u body now) = MockResponse segmentResponse"
        using no_spoof False by (simp add: fetch_def)
      then show ?thesis
        using True False fabricated_responses by simp
    next
      case segment: False
      obtain c1 where "shouldInterceptUrl c (JString u) (orEmpty body) now = (True, c1)"
        using assms(2) by (cases "shouldInterceptUrl c (JString u) (orEmpty body) now") simp
      then have "fst (fetch c u body now) = MockResponse mockResponse"
        using no_spoof False segment by (simp add: fetch_def)
      then show ?thesis
        using segment fabricated_responses by simp
    qed
  qed
qed

theorem intercepted_fetch_is_answered_locally_witness:
  "reachable URLClassificationCache_init
   \<and> fst (shouldInterceptUrl URLClassificationCache_init
         (JString ''https://example.com/api/bug_report'') (orEmpty JFalsy) 0)
   \<and> (\<exists>r. fst (fetch URLClassificationCache_init ''https://example.com/api/bug_report'' JFalsy 0)
             = MockResponse r \<and> ok r \<and> status r = 200
           \<and> bodyText r =
               (if \<not> shouldInterceptUpload (orEmpty JFalsy) ''https://example.com/api/bug_report''
                   \<and> (str_includes ''https://example.com/api/bug_report'' ''segment.io''
                      \<or> str_includes ''https://example.com/api/bug_report'' ''api.segment.io''
                      \<or> str_includes ''https://example.com/api/bug_report'' ''/v1/batch''
                      \<or> str_includes ''https://example.com/api/bug_report'' ''/v1/track'')
                then ''{\"success\": true, \"batch\": {\"sent\": true}}'' else ''{}''))"
proof -
  have r: "reachable URLClassificationCache_init"
    by (rule reachable.initial)
  have i: "fst (shouldInterceptUrl URLClassificationCache_init
             (JString ''https://example.com/api/bug_report'') (orEmpty JFalsy) 0)"
    by code_simp
  from r i intercepted_fetch_is_answered_locally [OF r i]
  show ?thesis by (intro conjI)
qed

lemma example_plain_block:
  "fst (fetch URLClassificationCache_init ''https://example.com/api/bug_report'' JFalsy 0)
     = MockResponse mockResponse"
  by code_simp

end
